theory Spec2Isabelle
  imports Complex_Main "HOL-Library.Sublist"
begin

section \<open>Python strings\<close>

text \<open>
  The scraper \<^verbatim>\<open>scripts/salt_lake_county.py\<close> works on Python \<^verbatim>\<open>str\<close> values. A
  \<^typ>\<open>string\<close> here is a list of \<^typ>\<open>char\<close>, and a \<^typ>\<open>char\<close> stands for the Unicode
  code point of the same number, so the model covers the strings whose code points are
  below 256. On these, \<open>isspace\<close> and \<open>lower\<close> are what \<^verbatim>\<open>str.isspace\<close> and
  \<^verbatim>\<open>str.lower\<close> compute.
\<close>

definition isspace :: "char \<Rightarrow> bool" where
  "isspace c = (c \<in> set [CHR 0x09, CHR 0x0A, CHR 0x0B, CHR 0x0C, CHR 0x0D,
                          CHR 0x1C, CHR 0x1D, CHR 0x1E, CHR 0x1F, CHR 0x20,
                          CHR 0x85, CHR 0xA0])"

definition lower_char :: "char \<Rightarrow> char" where
  "lower_char c =
     (let n = (of_char c :: nat)
      in if (65 \<le> n \<and> n \<le> 90) \<or> (192 \<le> n \<and> n \<le> 222 \<and> n \<noteq> 215)
         then char_of (n + 32) else c)"

definition lower :: "string \<Rightarrow> string" where
  "lower s = map lower_char s"

text \<open>\<^verbatim>\<open>s.startswith(p)\<close>.\<close>

definition startswith :: "string \<Rightarrow> string \<Rightarrow> bool" where
  "startswith s p = (take (length p) s = p)"

text \<open>\<^verbatim>\<open>sub in s\<close> for strings.\<close>

fun contains :: "string \<Rightarrow> string \<Rightarrow> bool" where
  "contains [] sub = (sub = [])"
| "contains (c # cs) sub = (startswith (c # cs) sub \<or> contains cs sub)"

text \<open>
  \<^verbatim>\<open>s.strip()\<close> removes leading and trailing whitespace; \<^verbatim>\<open>s.strip(chars)\<close> removes
  leading and trailing characters that occur in \<^verbatim>\<open>chars\<close>.
\<close>

definition strip_chars :: "(char \<Rightarrow> bool) \<Rightarrow> string \<Rightarrow> string" where
  "strip_chars P s = rev (dropWhile P (rev (dropWhile P s)))"

definition strip :: "string \<Rightarrow> string" where
  "strip s = strip_chars isspace s"

definition strip_of :: "string \<Rightarrow> string \<Rightarrow> string" where
  "strip_of chars s = strip_chars (\<lambda>c. c \<in> set chars) s"

text \<open>
  \<^verbatim>\<open>s.split(sep)\<close>: the separator is searched from the left, and the search goes on after
  each occurrence found, so occurrences never overlap. The result is never the empty
  list (lemma \<open>split_not_Nil\<close> below), which leaves the first branch of the
  \<^theory_text>\<open>case\<close> unused. Python raises \<^verbatim>\<open>ValueError\<close> for an empty separator; both calls of
  the program pass a non-empty literal.
\<close>

fun split :: "string \<Rightarrow> string \<Rightarrow> string list" where
  "split [] sep = [[]]"
| "split (c # cs) sep =
     (if sep \<noteq> [] \<and> startswith (c # cs) sep
      then [] # split (drop (length sep) (c # cs)) sep
      else (case split cs sep of [] \<Rightarrow> [[c]] | p # ps \<Rightarrow> (c # p) # ps))"

text \<open>\<^verbatim>\<open>s.replace(old, new)\<close> for a non-empty \<^verbatim>\<open>old\<close>, again from the left.\<close>

fun replace :: "string \<Rightarrow> string \<Rightarrow> string \<Rightarrow> string" where
  "replace [] old new = []"
| "replace (c # cs) old new =
     (if old \<noteq> [] \<and> startswith (c # cs) old
      then new @ replace (drop (length old) (c # cs)) old new
      else c # replace cs old new)"

text \<open>
  \<^verbatim>\<open>re.sub(r"\s+", " ", s)\<close>: every maximal run of whitespace becomes one space.
\<close>

function collapse_ws :: "string \<Rightarrow> string" where
  "collapse_ws [] = []"
| "collapse_ws (c # cs) =
     (if isspace c then CHR '' '' # collapse_ws (dropWhile isspace cs)
      else c # collapse_ws cs)"
  by pat_completeness auto
termination
  by (relation "measure length") (auto simp: less_Suc_eq_le length_dropWhile_le)

text \<open>\<^verbatim>\<open>d.get(k, default)\<close> on a dictionary written as a list of its items.\<close>

definition dict_get :: "(string \<times> string) list \<Rightarrow> string \<Rightarrow> string \<Rightarrow> string" where
  "dict_get d k dflt = (case map_of d k of Some v \<Rightarrow> v | None \<Rightarrow> dflt)"


section \<open>The browser page and the crawler's state\<close>

text \<open>
  An awaited call of the browser either raises or returns; \<open>Inl\<close> is the exception.
\<close>

datatype error = MemoryError | TimeoutError | PageError

type_synonym 'a result = "error + 'a"

text \<open>
  A DOM element handle with the two methods the program calls, and the loaded page with
  its five. A page is a snapshot: the same question gets the same answer.
\<close>

datatype element =
  Element (text_content: "string option result") (get_attribute: "string \<Rightarrow> string option result")

record page =
  wait_for_load_state :: "string \<Rightarrow> unit result"
  wait_for_selector :: "string \<Rightarrow> unit result"
  query_selector :: "string \<Rightarrow> element option result"
  query_selector_all :: "string \<Rightarrow> element list result"
  content :: "string result"

text \<open>A request of the crawler, as \<^verbatim>\<open>Request.from_url\<close> builds it.\<close>

record request =
  url :: string
  label :: "string option"
  user_data :: "(string \<times> string) list"

definition from_url :: "string \<Rightarrow> string option \<Rightarrow> (string \<times> string) list \<Rightarrow> request" where
  "from_url u l d = \<lparr>url = u, label = l, user_data = d\<rparr>"

record crawling_context =
  request :: request
  page :: page

text \<open>
  What the handlers change: the module-level set \<^verbatim>\<open>visited_mls\<close>, the requests handed
  to \<^verbatim>\<open>context.add_requests\<close> (in the order of the calls), and the rows appended to the
  CSV file. A handler returns the state it leaves and the exception it raised, if any:
  changes made before an exception stay. What the crawler does with a request it was
  handed (its own filter for URLs it already has, its limit on the number of requests) and
  how the CSV file is written are outside the program; \<open>add_requests\<close> and
  \<open>append_to_csv\<close> record the calls.
\<close>

record crawl_state =
  visited_mls :: "string set"
  request_queue :: "request list"
  csv_rows :: "(string \<times> string) list list"

definition add_requests :: "request list \<Rightarrow> crawl_state \<Rightarrow> crawl_state" where
  "add_requests rs st = st\<lparr>request_queue := request_queue st @ rs\<rparr>"

text \<open>The state when \<^verbatim>\<open>main\<close> starts the crawler: nothing visited, queued or written.\<close>

definition empty_state :: crawl_state where
  "empty_state = \<lparr>visited_mls = {}, request_queue = [], csv_rows = []\<rparr>"


section \<open>Utilities\<close>

definition MAX_MEMORY_GB :: real where
  "MAX_MEMORY_GB = 7"

definition CSV_HEADERS :: "string list" where
  "CSV_HEADERS = [''mls'', ''price'', ''address'', ''beds'', ''baths'', ''sqft'',
                  ''year_built'', ''lot_size'', ''garage'', ''agent'', ''city'']"

text \<open>
  \<^verbatim>\<open>check_memory\<close> takes the resident set size in bytes that \<^verbatim>\<open>psutil\<close> reports.
\<close>

definition check_memory :: "nat \<Rightarrow> real result" where
  "check_memory rss =
     (let mem_gb = real rss / (1024 ^ 3)
      in if mem_gb > MAX_MEMORY_GB * (9 / 10) then Inl MemoryError else Inr mem_gb)"

text \<open>
  \<^verbatim>\<open>append_to_csv\<close> writes one row: for every header in order, the value of the
  dictionary or the empty string.
\<close>

definition append_to_csv :: "(string \<times> string) list \<Rightarrow> crawl_state \<Rightarrow> crawl_state" where
  "append_to_csv data st =
     st\<lparr>csv_rows := csv_rows st @ [map (\<lambda>k. (k, dict_get data k [])) CSV_HEADERS]\<rparr>"

text \<open>
  \<^verbatim>\<open>safe_text\<close>: any exception and a missing element give the empty string.
\<close>

definition safe_text :: "page \<Rightarrow> string \<Rightarrow> string" where
  "safe_text pg selector =
     (case query_selector pg selector of
        Inl e \<Rightarrow> []
      | Inr None \<Rightarrow> []
      | Inr (Some el) \<Rightarrow>
          (case text_content el of
             Inl e \<Rightarrow> []
           | Inr txt \<Rightarrow> strip (case txt of None \<Rightarrow> [] | Some t \<Rightarrow> t)))"

definition is_valid_url :: "string \<Rightarrow> bool" where
  "is_valid_url u =
     (if u = [] then False
      else \<not> list_ex (\<lambda>p. startswith (lower u) p)
                 [''javascript:'', ''mailto:'', ''tel:'', ''#''])"


section \<open>Search results\<close>

text \<open>
  The city is group 1 of the leftmost match of the pattern
  \<^verbatim>\<open>utahrealestate\.com/([^/]+)-homes\<close> in the URL. At a position where the literal part
  matches, the greedy group takes the whole run of characters other than \<^verbatim>\<open>/\<close> and gives
  characters back one at a time until \<^verbatim>\<open>-homes\<close> follows; it keeps at least one.
\<close>

fun backtrack_slug :: "string \<Rightarrow> nat \<Rightarrow> string option" where
  "backtrack_slug rest 0 = None"
| "backtrack_slug rest (Suc k) =
     (if startswith (drop (Suc k) rest) ''-homes'' then Some (take (Suc k) rest)
      else backtrack_slug rest k)"

definition match_city_at :: "string \<Rightarrow> string option" where
  "match_city_at s =
     (if startswith s ''utahrealestate.com/''
      then (let rest = drop (length ''utahrealestate.com/'') s
            in backtrack_slug rest (length (takeWhile (\<lambda>c. c \<noteq> CHR ''/'') rest)))
      else None)"

fun re_search_city :: "string \<Rightarrow> string option" where
  "re_search_city [] = None"
| "re_search_city (c # cs) =
     (case match_city_at (c # cs) of Some g \<Rightarrow> Some g | None \<Rightarrow> re_search_city cs)"

definition search_city :: "string \<Rightarrow> string" where
  "search_city u = (case re_search_city u of Some g \<Rightarrow> g | None \<Rightarrow> ''unknown'')"

definition detail_url :: "string \<Rightarrow> string" where
  "detail_url mls = ''https://www.utahrealestate.com/listing/'' @ mls"

text \<open>
  The body of the loop over the cards. An exception of \<^verbatim>\<open>get_attribute\<close> is caught and
  logged. Between the test \<^verbatim>\<open>mls in visited_mls\<close> and \<^verbatim>\<open>visited_mls.add(mls)\<close> nothing is
  awaited, so no other handler runs between them.
\<close>

definition queue_listing :: "string \<Rightarrow> crawl_state \<Rightarrow> element \<Rightarrow> crawl_state" where
  "queue_listing city st crd =
     (case get_attribute crd ''listno'' of
        Inl e \<Rightarrow> st
      | Inr None \<Rightarrow> st
      | Inr (Some mls) \<Rightarrow>
          if mls = [] \<or> mls \<in> visited_mls st then st
          else add_requests [from_url (detail_url mls) (Some ''detail'') [(''city'', city)]]
                 (st\<lparr>visited_mls := insert mls (visited_mls st)\<rparr>))"

text \<open>
  The selector of the next-page control:
  \<^verbatim>\<open>a.next, a:has-text("Next"), a:has-text(X)\<close> with the character U+00BB, in quotes, for X.
\<close>

definition next_selector :: string where
  "next_selector = ''a.next, a:has-text('' @ [CHR 0x22] @ ''Next'' @ [CHR 0x22] @
                   ''), a:has-text('' @ [CHR 0x22, CHR 0xBB, CHR 0x22] @ '')''"

text \<open>The pagination part of \<^verbatim>\<open>extract_search_results\<close>.\<close>

definition paginate :: "string \<Rightarrow> page \<Rightarrow> crawl_state \<Rightarrow> error option \<times> crawl_state" where
  "paginate city pg st =
     (case query_selector pg next_selector of
        Inl e \<Rightarrow> (Some e, st)
      | Inr None \<Rightarrow> (None, st)
      | Inr (Some next_btn) \<Rightarrow>
          (case get_attribute next_btn ''href'' of
             Inl e \<Rightarrow> (Some e, st)
           | Inr None \<Rightarrow> (None, st)
           | Inr (Some href) \<Rightarrow>
               if href \<noteq> [] \<and> is_valid_url href
               then (let href' = (if startswith href ''/''
                                  then ''https://www.utahrealestate.com'' @ href else href)
                     in (None, add_requests [from_url href' None [(''city'', city)]] st))
               else (None, st)))"

definition extract_search_results ::
  "crawling_context \<Rightarrow> crawl_state \<Rightarrow> error option \<times> crawl_state" where
  "extract_search_results ctx st =
     (let pg = page ctx;
          city = search_city (url (request ctx))
      in case wait_for_selector pg ''.property___card'' of
           Inl e \<Rightarrow> (None, st)
         | Inr _ \<Rightarrow>
             (case query_selector_all pg ''.property___card'' of
                Inl e \<Rightarrow> (Some e, st)
              | Inr cards \<Rightarrow> paginate city pg (foldl (queue_listing city) st cards)))"


section \<open>Detail page\<close>

text \<open>
  Three fields are found by a case-insensitive regular expression search over the HTML
  of the page:
  \<^item> year built, \<^verbatim>\<open>Year\s*Built[^0-9]*(\d{4})\<close>;
  \<^item> lot size, \<^verbatim>\<open>Lot[^0-9]*([\d.,]+\s*(?:ac|acre|sq\.? ft))\<close>;
  \<^item> garage, \<^verbatim>\<open>Garage[^0-9]*(\d+)\<close>.

  The handler uses nothing of a search but whether it matched and group 1 of the match,
  so the search is a parameter \<open>re_search\<close> of the model that gives group 1 of the
  match, if there is one. What is proved holds for every such function.
\<close>

datatype html_pattern = Year_Built | Lot | Garage

definition extract_detail ::
  "(html_pattern \<Rightarrow> string \<Rightarrow> string option) \<Rightarrow> crawling_context \<Rightarrow> crawl_state
     \<Rightarrow> error option \<times> crawl_state" where
  "extract_detail re_search ctx st =
     (let pg = page ctx;
          u = url (request ctx);
          city = dict_get (user_data (request ctx)) ''city'' ''unknown'';
          mls = hd (split (last (split u ''/listing/'')) ''/'');
          street = safe_text pg ''.prop___overview h2'';
          city_state = safe_text pg ''#location-data'';
          address = strip_of '' ,'' (street @ '', '' @ city_state);
          price = safe_text pg ''.prop-details-overview li span'';
          beds = replace (safe_text pg ''.prop-details-overview li:nth-of-type(2) span'') '','' [];
          baths = replace (safe_text pg ''.prop-details-overview li:nth-of-type(3) span'') '','' [];
          sqft = replace (safe_text pg ''.prop-details-overview li:nth-of-type(4) span'') '','' []
      in case content pg of
           Inl e \<Rightarrow> (Some e, st)
         | Inr html \<Rightarrow>
             (let year_built = (case re_search Year_Built html of Some g \<Rightarrow> g | None \<Rightarrow> []);
                  lot_size = (case re_search Lot html of Some g \<Rightarrow> g | None \<Rightarrow> []);
                  garage = (case re_search Garage html of Some g \<Rightarrow> g | None \<Rightarrow> []);
                  agent0 = safe_text pg ''.agent-name, [class*='agent']'';
                  agent = (if agent0 \<noteq> [] then strip (collapse_ws agent0) else []);
                  data = [(''mls'', mls), (''price'', price), (''address'', address),
                          (''beds'', beds), (''baths'', baths), (''sqft'', sqft),
                          (''year_built'', year_built), (''lot_size'', lot_size),
                          (''garage'', garage), (''agent'', agent), (''city'', city)]
              in (None, append_to_csv data st)))"


section \<open>The request handler\<close>

definition router_handler ::
  "(html_pattern \<Rightarrow> string \<Rightarrow> string option) \<Rightarrow> nat \<Rightarrow> crawling_context \<Rightarrow> crawl_state
     \<Rightarrow> error option \<times> crawl_state" where
  "router_handler re_search rss ctx st =
     (case check_memory rss of
        Inl e \<Rightarrow> (Some e, st)
      | Inr mem \<Rightarrow>
          (case wait_for_load_state (page ctx) ''domcontentloaded'' of
             Inl e \<Rightarrow> (Some e, st)
           | Inr _ \<Rightarrow>
               if contains (url (request ctx)) ''/listing/'' \<or> label (request ctx) = Some ''detail''
               then extract_detail re_search ctx st
               else extract_search_results ctx st))"


section \<open>A crawl run\<close>

text \<open>
  \<^verbatim>\<open>main\<close> starts the crawler on one URL per city. The crawler, which is a library, calls
  \<open>router_handler\<close> for the start URLs and for the requests the handlers add, several
  at a time on one event loop: a handler runs until it awaits, and then others may run.
\<close>

definition cities :: "string list" where
  "cities = [''draper'', ''holladay'', ''midvale'', ''millcreek'', ''cottonwood-heights'',
             ''murray'', ''salt-lake-city'', ''sandy'', ''south-jordan'', ''south-salt-lake'',
             ''sugarhouse'', ''west-jordan'', ''west-valley'']"

definition start_urls :: "string list" where
  "start_urls = map (\<lambda>c. ''https://www.utahrealestate.com/'' @ c @ ''-homes'') cities"

definition start_requests :: "request list" where
  "start_requests = map (\<lambda>u. from_url u None []) start_urls"

text \<open>The test by which \<open>router_handler\<close> sends a request to \<open>extract_detail\<close>.\<close>

definition routed_to_detail :: "request \<Rightarrow> bool" where
  "routed_to_detail r \<longleftrightarrow> contains (url r) ''/listing/'' \<or> label r = Some ''detail''"

text \<open>
  A run is a sequence of the steps in which the handlers change the state, in the order
  in which they happen:
  \<^item> \<open>Card city crd\<close>: one pass of the loop over the cards, for the card \<open>crd\<close> of a
    search page with city \<open>city\<close>;
  \<^item> \<open>Next city pg\<close>: the pagination part of a search handler on the page \<open>pg\<close>;
  \<^item> \<open>Detail n pg\<close>: \<open>extract_detail\<close> for the request number \<open>n\<close> (counting the
    start URLs first, then the added requests in order) on the loaded page \<open>pg\<close>.

  Any interleaving of handlers, and any repetition of a handler that failed, is such a
  sequence. Of the crawler the model assumes that it hands a request to the handler only
  once the request has been added, and that a request whose handler has completed is not
  handled again: the second component of the state lists the requests completed by
  \<open>extract_detail\<close>.
\<close>

datatype event = Card string element | Next string page | Detail nat page

fun step ::
  "(html_pattern \<Rightarrow> string \<Rightarrow> string option) \<Rightarrow> crawl_state \<times> nat list \<Rightarrow> event
     \<Rightarrow> crawl_state \<times> nat list" where
  "step rx (st, completed) (Card city crd) = (queue_listing city st crd, completed)"
| "step rx (st, completed) (Next city pg) = (snd (paginate city pg st), completed)"
| "step rx (st, completed) (Detail n pg) =
     (let q = start_requests @ request_queue st
      in if n < length q \<and> n \<notin> set completed \<and> routed_to_detail (q ! n)
         then (case extract_detail rx \<lparr>request = q ! n, page = pg\<rparr> st of
                 (None, st') \<Rightarrow> (st', completed @ [n])
               | (Some e, st') \<Rightarrow> (st', completed))
         else (st, completed))"

definition run ::
  "(html_pattern \<Rightarrow> string \<Rightarrow> string option) \<Rightarrow> event list \<Rightarrow> crawl_state \<times> nat list" where
  "run rx evs = foldl (step rx) (empty_state, []) evs"


section \<open>Example pages\<close>

text \<open>
  Concrete pages for the examples below: a detail page given by the texts of its elements
  (by selector) and its HTML, and a search page given by the \<^verbatim>\<open>listno\<close> attributes of its
  cards and the \<^verbatim>\<open>href\<close> of its next-page control, if it has one.
\<close>

definition text_element :: "string \<Rightarrow> element" where
  "text_element t = Element (Inr (Some t)) (\<lambda>a. Inr None)"

definition attr_element :: "string \<Rightarrow> string \<Rightarrow> element" where
  "attr_element a v = Element (Inr None) (\<lambda>b. if b = a then Inr (Some v) else Inr None)"

definition detail_page :: "(string \<times> string) list \<Rightarrow> string \<Rightarrow> page" where
  "detail_page texts html =
     \<lparr>wait_for_load_state = (\<lambda>s. Inr ()),
      wait_for_selector = (\<lambda>s. Inr ()),
      query_selector = (\<lambda>s. Inr (map_option text_element (map_of texts s))),
      query_selector_all = (\<lambda>s. Inr []),
      content = Inr html\<rparr>"

definition search_page :: "string list \<Rightarrow> string option \<Rightarrow> page" where
  "search_page listnos href =
     \<lparr>wait_for_load_state = (\<lambda>s. Inr ()),
      wait_for_selector = (\<lambda>s. Inr ()),
      query_selector =
        (\<lambda>s. Inr (if s = next_selector then map_option (attr_element ''href'') href else None)),
      query_selector_all =
        (\<lambda>s. Inr (if s = ''.property___card'' then map (attr_element ''listno'') listnos else [])),
      content = Inr []\<rparr>"

definition no_match :: "html_pattern \<Rightarrow> string \<Rightarrow> string option" where
  "no_match p html = None"

definition listing_page :: page where
  "listing_page = detail_page
     [(''.prop-details-overview li span'', ''$450,000''),
      (''.prop-details-overview li:nth-of-type(2) span'', ''3''),
      (''.prop-details-overview li:nth-of-type(3) span'', ''2''),
      (''.prop-details-overview li:nth-of-type(4) span'', '' 1,850 '')] []"

text \<open>
  Runs: a card seen twice with one request completed and tried again; two cards whose
  identifiers differ after a slash; a next-page link that leads to a listing.
\<close>

definition example_run :: "event list" where
  "example_run =
     [Card ''draper'' (attr_element ''listno'' ''1886342''),
      Card ''sandy'' (attr_element ''listno'' ''1886342''),
      Next ''draper'' (search_page [] (Some ''/draper-homes?page=2'')),
      Detail 13 (detail_page [] []),
      Detail 13 (detail_page [] [])]"

definition slash_run :: "event list" where
  "slash_run =
     [Card ''draper'' (attr_element ''listno'' ''1''),
      Card ''draper'' (attr_element ''listno'' ''1/x''),
      Detail 13 (detail_page [] []),
      Detail 14 (detail_page [] [])]"

definition link_run :: "event list" where
  "link_run =
     [Card ''draper'' (attr_element ''listno'' ''1''),
      Next ''draper'' (search_page [] (Some ''/listing/1/photos'')),
      Detail 13 (detail_page [] []),
      Detail 14 (detail_page [] [])]"


section \<open>Notions used in the statements\<close>

text \<open>
  The extraction of an element's text fails when the query raises or finds nothing, or
  the text of the element cannot be read or is absent.
\<close>

definition no_text :: "page \<Rightarrow> string \<Rightarrow> bool" where
  "no_text pg selector =
     (case query_selector pg selector of
        Inl e \<Rightarrow> True
      | Inr None \<Rightarrow> True
      | Inr (Some el) \<Rightarrow>
          (case text_content el of Inl e \<Rightarrow> True | Inr None \<Rightarrow> True | Inr (Some t) \<Rightarrow> False))"


text \<open>
  A URL matches the pattern \<^verbatim>\<open>utahrealestate\.com/([^/]+)-homes\<close> when some part of it
  is the host and a slash, then one or more characters other than \<^verbatim>\<open>/\<close>, then
  \<^verbatim>\<open>-homes\<close>.
\<close>

definition matches_city_pattern :: "string \<Rightarrow> bool" where
  "matches_city_pattern u \<longleftrightarrow>
     (\<exists>pre slug post. u = pre @ ''utahrealestate.com/'' @ slug @ ''-homes'' @ post \<and>
        slug \<noteq> [] \<and> CHR ''/'' \<notin> set slug)"


text \<open>
  The identifier that \<open>extract_detail\<close> reads from the URL of a request, and the
  identifier of a written row.
\<close>

definition request_mls :: "request \<Rightarrow> string" where
  "request_mls r = hd (split (last (split (url r) ''/listing/'')) ''/'')"

text \<open>
  The identifier a step claims, if it is a step for a card with a non-empty
  \<^verbatim>\<open>listno\<close>; the identifiers seen in a run; the detail requests queued for an identifier.
\<close>

fun card_mls :: "event \<Rightarrow> string option" where
  "card_mls (Card city crd) =
     (case get_attribute crd ''listno'' of
        Inr (Some mls) \<Rightarrow> if mls = [] then None else Some mls
      | _ \<Rightarrow> None)"
| "card_mls _ = None"

definition row_mls :: "(string \<times> string) list \<Rightarrow> string" where
  "row_mls row = dict_get row ''mls'' []"

definition seen_mls :: "event list \<Rightarrow> string set" where
  "seen_mls evs = {mls. \<exists>e\<in>set evs. card_mls e = Some mls}"

definition detail_tasks :: "crawl_state \<Rightarrow> string \<Rightarrow> request list" where
  "detail_tasks st mls =
     filter (\<lambda>r. url r = detail_url mls \<and> label r = Some ''detail'') (request_queue st)"

text \<open>
  In a regular step, the identifier of the card has no \<^verbatim>\<open>/\<close>, and the request added
  for the next page, if any, is not for a URL with \<^verbatim>\<open>/listing/\<close> in it.
\<close>

fun regular :: "event \<Rightarrow> bool" where
  "regular (Card city crd) =
     (case card_mls (Card city crd) of None \<Rightarrow> True | Some mls \<Rightarrow> CHR ''/'' \<notin> set mls)"
| "regular (Next city pg) =
     list_all (\<lambda>r. \<not> contains (url r) ''/listing/'')
       (request_queue (snd (paginate city pg empty_state)))"
| "regular (Detail n pg) = True"

text \<open>
  The invariant of regular runs behind the distinct rows: among all requests, those routed
  to \<open>extract_detail\<close> carry identifiers that are in \<^verbatim>\<open>visited_mls\<close> and pairwise
  different, and the rows written are those of the completed requests.
\<close>

definition sink_inv :: "crawl_state \<times> nat list \<Rightarrow> bool" where
  "sink_inv s \<longleftrightarrow>
     (let st = fst s; completed = snd s; q = start_requests @ request_queue st
      in (\<forall>i<length q. routed_to_detail (q ! i) \<longrightarrow> request_mls (q ! i) \<in> visited_mls st) \<and>
         (\<forall>i<length q. \<forall>j<length q. routed_to_detail (q ! i) \<longrightarrow> routed_to_detail (q ! j) \<longrightarrow>
             request_mls (q ! i) = request_mls (q ! j) \<longrightarrow> i = j) \<and>
         distinct completed \<and> (\<forall>n\<in>set completed. n < length q \<and> routed_to_detail (q ! n)) \<and>
         map row_mls (csv_rows st) = map (\<lambda>n. request_mls (q ! n)) completed)"


section \<open>Facts about the string operations\<close>

lemma startswith_prefix: "startswith s p \<longleftrightarrow> prefix p s"
  unfolding startswith_def prefix_def
  by (metis append_eq_conv_conj append_take_drop_id)

lemma split_not_Nil: "split s sep \<noteq> []"
  by (induction s sep rule: split.induct) (auto split: list.splits)

lemma split_no_sep: "hd sep \<notin> set s \<Longrightarrow> split s sep = [s]"
  by (induction s)
     (auto simp: startswith_def hd_conv_nth dest!: arg_cong[where f=hd] split: list.splits)



lemma dropWhile_all: "\<forall>x\<in>set t. P x \<Longrightarrow> dropWhile P t = []"
  by simp

lemma strip_chars_append_right:
  "\<forall>x\<in>set t. P x \<Longrightarrow> strip_chars P (s @ t) = strip_chars P s"
  by (cases "\<forall>x\<in>set s. P x") (simp_all add: strip_chars_def dropWhile_append dropWhile_all)

lemma strip_chars_append_left:
  "\<forall>x\<in>set t. P x \<Longrightarrow> strip_chars P (t @ s) = strip_chars P s"
  by (simp add: strip_chars_def dropWhile_append)

lemma strip_chars_id:
  assumes "s = [] \<or> (\<not> P (hd s) \<and> \<not> P (last s))"
  shows "strip_chars P s = s"
proof (cases "s = []")
  case True
  then show ?thesis by (simp add: strip_chars_def)
next
  case False
  with assms have h: "\<not> P (hd s)" and l: "\<not> P (last s)" by auto
  have "dropWhile P s = s" using h by (simp add: dropWhile_eq_self_iff)
  moreover have "dropWhile P (rev s) = rev s" using l by (simp add: dropWhile_eq_self_iff hd_rev)
  ultimately show ?thesis by (simp add: strip_chars_def)
qed

lemma strip_chars_ends:
  assumes "strip_chars P s \<noteq> []"
  shows "\<not> P (hd (strip_chars P s)) \<and> \<not> P (last (strip_chars P s))"
proof -
  let ?d = "dropWhile P s" and ?r = "dropWhile P (rev (dropWhile P s))"
  have r: "?r \<noteq> []" using assms by (simp add: strip_chars_def)
  have d: "?d \<noteq> []"
  proof
    assume e: "?d = []"
    have "?r = []" unfolding e by simp
    with r show False ..
  qed
  have "\<not> P (hd ?r)" using r by (rule hd_dropWhile)
  then have 1: "\<not> P (last (strip_chars P s))" by (simp add: strip_chars_def last_rev)
  have "\<not> P (hd ?d)" using d by (rule hd_dropWhile)
  then have "\<not> P (last (rev ?d))" by (simp add: last_rev)
  moreover have "last ?r = last (rev ?d)"
    using r by (metis dropWhile_eq_drop last_drop drop_eq_Nil not_le)
  ultimately have 2: "\<not> P (hd (strip_chars P s))" by (simp add: strip_chars_def hd_rev)
  from 1 2 show ?thesis by simp
qed

lemma replace_comma_removeAll: "replace s '','' [] = removeAll (CHR '','') s"
  by (induction s) (auto simp: startswith_def)


section \<open>Facts about the handlers\<close>

text \<open>
  The row that \<open>extract_detail\<close> appends when the HTML of the page can be read, field
  by field; when it cannot, the exception leaves the handler and nothing is written.
\<close>

lemma extract_detail_row:
  assumes "content (page ctx) = Inr html"
  shows "extract_detail rx ctx st =
    (None, st\<lparr>csv_rows := csv_rows st @
      [[(''mls'', hd (split (last (split (url (request ctx)) ''/listing/'')) ''/'')),
        (''price'', safe_text (page ctx) ''.prop-details-overview li span''),
        (''address'', strip_of '' ,'' (safe_text (page ctx) ''.prop___overview h2'' @ '', '' @
                                       safe_text (page ctx) ''#location-data'')),
        (''beds'', replace (safe_text (page ctx) ''.prop-details-overview li:nth-of-type(2) span'') '','' []),
        (''baths'', replace (safe_text (page ctx) ''.prop-details-overview li:nth-of-type(3) span'') '','' []),
        (''sqft'', replace (safe_text (page ctx) ''.prop-details-overview li:nth-of-type(4) span'') '','' []),
        (''year_built'', case rx Year_Built html of Some g \<Rightarrow> g | None \<Rightarrow> []),
        (''lot_size'', case rx Lot html of Some g \<Rightarrow> g | None \<Rightarrow> []),
        (''garage'', case rx Garage html of Some g \<Rightarrow> g | None \<Rightarrow> []),
        (''agent'', if safe_text (page ctx) ''.agent-name, [class*='agent']'' \<noteq> []
                    then strip (collapse_ws (safe_text (page ctx) ''.agent-name, [class*='agent']''))
                    else []),
        (''city'', dict_get (user_data (request ctx)) ''city'' ''unknown'')]]\<rparr>)"
  using assms
  by (simp add: extract_detail_def Let_def append_to_csv_def CSV_HEADERS_def dict_get_def)

lemma extract_detail_raise:
  "content (page ctx) = Inl e \<Longrightarrow> extract_detail rx ctx st = (Some e, st)"
  by (simp add: extract_detail_def Let_def)



lemma safe_text_no_text: "no_text pg selector \<Longrightarrow> safe_text pg selector = []"
  by (auto simp: no_text_def safe_text_def strip_def strip_chars_def split: sum.splits option.splits)

lemma safe_text_ends:
  "safe_text pg selector \<noteq> [] \<Longrightarrow>
     \<not> isspace (hd (safe_text pg selector)) \<and> \<not> isspace (last (safe_text pg selector))"
proof -
  assume ne: "safe_text pg selector \<noteq> []"
  have "safe_text pg selector = [] \<or> (\<exists>t. safe_text pg selector = strip_chars isspace t)"
    by (auto simp: safe_text_def strip_def split: sum.splits option.splits)
  with ne obtain t where t: "safe_text pg selector = strip_chars isspace t" by auto
  with ne have "strip_chars isspace t \<noteq> []" by simp
  from strip_chars_ends[OF this] show ?thesis by (simp add: t)
qed

lemma strip_of_join_right: "strip_of '' ,'' (a @ '', '') = strip_of '' ,'' a"
  unfolding strip_of_def by (rule strip_chars_append_right) simp

lemma strip_of_join_left: "strip_of '' ,'' ('', '' @ b) = strip_of '' ,'' b"
  unfolding strip_of_def by (rule strip_chars_append_left) simp

lemma strip_of_safe_text:
  assumes "safe_text pg selector \<noteq> []"
    and "hd (safe_text pg selector) \<noteq> CHR '',''" and "last (safe_text pg selector) \<noteq> CHR '',''"
  shows "strip_of '' ,'' (safe_text pg selector) = safe_text pg selector"
proof -
  from safe_text_ends[OF assms(1)]
  have "hd (safe_text pg selector) \<noteq> CHR '' ''" "last (safe_text pg selector) \<noteq> CHR '' ''"
    by (auto simp: isspace_def)
  with assms(2,3) show ?thesis
    unfolding strip_of_def by (intro strip_chars_id) simp
qed

lemma listing_page_texts:
  "safe_text listing_page ''.prop-details-overview li span'' = ''$450,000''"
  "safe_text listing_page ''.prop-details-overview li:nth-of-type(2) span'' = ''3''"
  "safe_text listing_page ''.prop-details-overview li:nth-of-type(3) span'' = ''2''"
  "safe_text listing_page ''.prop-details-overview li:nth-of-type(4) span'' = ''1,850''"
  by (simp_all add: listing_page_def detail_page_def safe_text_def text_element_def strip_def
      strip_chars_def isspace_def)


section \<open>The identifier in the detail URL\<close>

lemma split_detail_url:
  "CHR ''/'' \<notin> set mls \<Longrightarrow>
     split (detail_url mls) ''/listing/'' = [''https://www.utahrealestate.com'', mls]"
  by (simp add: detail_url_def startswith_def split_no_sep)

lemma url_mls_roundtrip:
  "CHR ''/'' \<notin> set mls \<Longrightarrow>
     hd (split (last (split (detail_url mls) ''/listing/'')) ''/'') = mls"
  by (simp add: split_detail_url split_no_sep)




section \<open>Navigable links\<close>

text \<open>
  Claim C8. \<open>is_valid_url\<close> compares the lowercased string with the four rejected
  beginnings: it is false for the empty string and for every string whose lowercased form
  starts with \<^verbatim>\<open>javascript:\<close>, \<^verbatim>\<open>mailto:\<close>, \<^verbatim>\<open>tel:\<close> or \<^verbatim>\<open>#\<close>, and true for every other
  string; \<^verbatim>\<open>JavaScript:void(0)\<close> is rejected.
\<close>

theorem is_valid_url_case_insensitive:
  "(is_valid_url u \<longleftrightarrow>
      u \<noteq> [] \<and> \<not> (prefix ''javascript:'' (lower u) \<or> prefix ''mailto:'' (lower u)
                   \<or> prefix ''tel:'' (lower u) \<or> prefix ''#'' (lower u))) \<and>
   lower ''JavaScript:void(0)'' = ''javascript:void(0)'' \<and>
   \<not> is_valid_url ''JavaScript:void(0)''"
proof (intro conjI)
  show "is_valid_url u \<longleftrightarrow>
      u \<noteq> [] \<and> \<not> (prefix ''javascript:'' (lower u) \<or> prefix ''mailto:'' (lower u)
                   \<or> prefix ''tel:'' (lower u) \<or> prefix ''#'' (lower u))"
    by (simp add: is_valid_url_def startswith_prefix)
  show "lower ''JavaScript:void(0)'' = ''javascript:void(0)''"
    by code_simp
  show "\<not> is_valid_url ''JavaScript:void(0)''"
    by code_simp
qed

section \<open>The fields of the record\<close>

text \<open>
  Claim C7, as amended. The address is the street text and the city and state text joined
  by a comma and a space, and then trimmed of the spaces and commas at both ends. It is
  empty when both texts are empty. When exactly one of them is empty, the address is
  the other one trimmed of the commas and spaces at its ends: it is the other text
  itself when that text neither starts nor ends with a comma (\<open>safe_text\<close> has
  removed the whitespace at its ends already).
\<close>

theorem address_joined_and_trimmed:
  assumes "content pg = Inr html"
    and "street = safe_text pg ''.prop___overview h2''"
    and "city_state = safe_text pg ''#location-data''"
  shows "\<exists>row. extract_detail rx \<lparr>request = r, page = pg\<rparr> st =
            (None, st\<lparr>csv_rows := csv_rows st @ [row]\<rparr>) \<and>
      dict_get row ''address'' [] = strip_of '' ,'' (street @ '', '' @ city_state) \<and>
      (street = [] \<and> city_state = [] \<longrightarrow> dict_get row ''address'' [] = []) \<and>
      (city_state = [] \<longrightarrow> dict_get row ''address'' [] = strip_of '' ,'' street) \<and>
      (street = [] \<longrightarrow> dict_get row ''address'' [] = strip_of '' ,'' city_state) \<and>
      (city_state = [] \<and> street \<noteq> [] \<and> hd street \<noteq> CHR '','' \<and> last street \<noteq> CHR '',''
         \<longrightarrow> dict_get row ''address'' [] = street) \<and>
      (street = [] \<and> city_state \<noteq> [] \<and> hd city_state \<noteq> CHR '','' \<and> last city_state \<noteq> CHR '',''
         \<longrightarrow> dict_get row ''address'' [] = city_state)"
proof -
  let ?ctx = "\<lparr>request = r, page = pg\<rparr>"
  let ?a = "strip_of '' ,'' (street @ '', '' @ city_state)"
  have "content (page ?ctx) = Inr html" using assms(1) by simp
  note row = extract_detail_row[OF this]
  have 1: "street = [] \<and> city_state = [] \<longrightarrow> ?a = []"
    by (simp add: strip_of_def strip_chars_def)
  have 2: "city_state = [] \<longrightarrow> ?a = strip_of '' ,'' street"
    using strip_of_join_right[of street] by simp
  have 3: "street = [] \<longrightarrow> ?a = strip_of '' ,'' city_state"
    using strip_of_join_left[of city_state] by simp
  have 4: "city_state = [] \<and> street \<noteq> [] \<and> hd street \<noteq> CHR '','' \<and> last street \<noteq> CHR '',''
         \<longrightarrow> ?a = street"
    using 2 strip_of_safe_text[of pg "''.prop___overview h2''"] assms(2) by simp
  have 5: "street = [] \<and> city_state \<noteq> [] \<and> hd city_state \<noteq> CHR '','' \<and> last city_state \<noteq> CHR '',''
         \<longrightarrow> ?a = city_state"
    using 3 strip_of_safe_text[of pg "''#location-data''"] assms(3) by simp
  have a: "dict_get [(''mls'', m), (''price'', p), (''address'', ?a), (''beds'', b1), (''baths'', b2),
        (''sqft'', sq), (''year_built'', y), (''lot_size'', l), (''garage'', g), (''agent'', ag),
        (''city'', c)] ''address'' [] = ?a" for m p b1 b2 sq y l g ag c
    by (simp add: dict_get_def)
  show ?thesis
    unfolding row
    apply (intro exI conjI, rule refl)
    unfolding assms(2,3)[symmetric] page.simps crawling_context.simps a
    using 1 2 3 4 5 by simp_all
qed

theorem address_joined_and_trimmed_witness:
  "dict_get (last (csv_rows (snd (extract_detail no_match
      \<lparr>request = from_url (detail_url ''1886342'') (Some ''detail'') [(''city'', ''draper'')],
       page = detail_page [(''.prop___overview h2'', ''12 Elm St'')] []\<rparr> empty_state))))
     ''address'' [] = ''12 Elm St'' \<and>
   dict_get (last (csv_rows (snd (extract_detail no_match
      \<lparr>request = from_url (detail_url ''1886342'') (Some ''detail'') [(''city'', ''draper'')],
       page = detail_page [(''#location-data'', ''Draper, UT 84020'')] []\<rparr> empty_state))))
     ''address'' [] = ''Draper, UT 84020'' \<and>
   dict_get (last (csv_rows (snd (extract_detail no_match
      \<lparr>request = from_url (detail_url ''1886342'') (Some ''detail'') [(''city'', ''draper'')],
       page = detail_page [] []\<rparr> empty_state))))
     ''address'' [] = []"
proof -
  let ?r = "from_url (detail_url ''1886342'') (Some ''detail'') [(''city'', ''draper'')]"
  have 1: "dict_get (last (csv_rows (snd (extract_detail no_match
      \<lparr>request = ?r, page = detail_page [(''.prop___overview h2'', ''12 Elm St'')] []\<rparr>
      empty_state)))) ''address'' [] = ''12 Elm St''"
    using address_joined_and_trimmed[of
        "detail_page [(''.prop___overview h2'', ''12 Elm St'')] []" "[]" "''12 Elm St''" "[]"
        no_match ?r empty_state]
    by (auto simp: detail_page_def safe_text_def text_element_def strip_def strip_chars_def
        isspace_def)
  have 2: "dict_get (last (csv_rows (snd (extract_detail no_match
      \<lparr>request = ?r, page = detail_page [(''#location-data'', ''Draper, UT 84020'')] []\<rparr>
      empty_state)))) ''address'' [] = ''Draper, UT 84020''"
    using address_joined_and_trimmed[of
        "detail_page [(''#location-data'', ''Draper, UT 84020'')] []" "[]" "[]"
        "''Draper, UT 84020''" no_match ?r empty_state]
    by (auto simp: detail_page_def safe_text_def text_element_def strip_def strip_chars_def
        isspace_def)
  have 3: "dict_get (last (csv_rows (snd (extract_detail no_match
      \<lparr>request = ?r, page = detail_page [] []\<rparr> empty_state)))) ''address'' [] = []"
    using address_joined_and_trimmed[of "detail_page [] []" "[]" "[]" "[]" no_match ?r empty_state]
    by (auto simp: detail_page_def safe_text_def)
  from 1 2 3 show ?thesis by simp
qed

text \<open>
  A street text that ends with a comma loses it: with no city and state text, the address
  differs from the street text.
\<close>

theorem address_drops_component_comma:
  "safe_text (detail_page [(''.prop___overview h2'', ''12 Elm St,'')] []) ''#location-data'' = [] \<and>
   safe_text (detail_page [(''.prop___overview h2'', ''12 Elm St,'')] []) ''.prop___overview h2''
     = ''12 Elm St,'' \<and>
   dict_get (last (csv_rows (snd (extract_detail no_match
      \<lparr>request = from_url (detail_url ''1886342'') (Some ''detail'') [(''city'', ''draper'')],
       page = detail_page [(''.prop___overview h2'', ''12 Elm St,'')] []\<rparr> empty_state))))
     ''address'' [] = ''12 Elm St'' \<and>
   dict_get (last (csv_rows (snd (extract_detail no_match
      \<lparr>request = from_url (detail_url ''1886342'') (Some ''detail'') [(''city'', ''draper'')],
       page = detail_page [(''.prop___overview h2'', ''12 Elm St,'')] []\<rparr> empty_state))))
     ''address'' [] \<noteq>
   safe_text (detail_page [(''.prop___overview h2'', ''12 Elm St,'')] []) ''.prop___overview h2''"
  by (simp add: extract_detail_row detail_page_def safe_text_def text_element_def strip_def
      strip_of_def strip_chars_def isspace_def dict_get_def)


text \<open>
  Claim C3, as amended. The values of \<^verbatim>\<open>beds\<close>, \<^verbatim>\<open>baths\<close> and \<^verbatim>\<open>sqft\<close> are the texts
  that \<open>safe_text\<close> returns with every comma removed; the value of \<^verbatim>\<open>price\<close> is the
  text that \<open>safe_text\<close> returns, with its commas.
\<close>

theorem summary_fields:
  assumes "content pg = Inr html"
  shows "\<exists>row. extract_detail rx \<lparr>request = r, page = pg\<rparr> st =
            (None, st\<lparr>csv_rows := csv_rows st @ [row]\<rparr>) \<and>
      dict_get row ''price'' [] = safe_text pg ''.prop-details-overview li span'' \<and>
      dict_get row ''beds'' [] =
        removeAll (CHR '','') (safe_text pg ''.prop-details-overview li:nth-of-type(2) span'') \<and>
      dict_get row ''baths'' [] =
        removeAll (CHR '','') (safe_text pg ''.prop-details-overview li:nth-of-type(3) span'') \<and>
      dict_get row ''sqft'' [] =
        removeAll (CHR '','') (safe_text pg ''.prop-details-overview li:nth-of-type(4) span'')"
proof -
  have "content (page \<lparr>request = r, page = pg\<rparr>) = Inr html" using assms by simp
  note row = extract_detail_row[OF this]
  show ?thesis
    unfolding row
    by (intro exI conjI, rule refl) (simp_all add: dict_get_def replace_comma_removeAll)
qed

theorem summary_fields_witness:
  "dict_get (last (csv_rows (snd (extract_detail no_match
      \<lparr>request = from_url (detail_url ''1886342'') (Some ''detail'') [(''city'', ''draper'')],
       page = listing_page\<rparr> empty_state)))) ''sqft'' [] = ''1850'' \<and>
   dict_get (last (csv_rows (snd (extract_detail no_match
      \<lparr>request = from_url (detail_url ''1886342'') (Some ''detail'') [(''city'', ''draper'')],
       page = listing_page\<rparr> empty_state)))) ''price'' [] = ''$450,000''"
proof -
  have c: "content listing_page = Inr []"
    by (simp add: listing_page_def detail_page_def)
  from summary_fields[OF c, of no_match
      "from_url (detail_url ''1886342'') (Some ''detail'') [(''city'', ''draper'')]" empty_state]
  show ?thesis by (auto simp: listing_page_texts)
qed

text \<open>The price \<^verbatim>\<open>$450,000\<close> is written with its comma.\<close>

theorem price_keeps_commas:
  "safe_text listing_page ''.prop-details-overview li span'' = ''$450,000'' \<and>
   dict_get (last (csv_rows (snd (extract_detail no_match
      \<lparr>request = from_url (detail_url ''1886342'') (Some ''detail'') [(''city'', ''draper'')],
       page = listing_page\<rparr> empty_state)))) ''price'' [] = ''$450,000'' \<and>
   dict_get (last (csv_rows (snd (extract_detail no_match
      \<lparr>request = from_url (detail_url ''1886342'') (Some ''detail'') [(''city'', ''draper'')],
       page = listing_page\<rparr> empty_state)))) ''price'' [] \<noteq>
     removeAll (CHR '','') (safe_text listing_page ''.prop-details-overview li span'')"
proof -
  have "content (page \<lparr>request = from_url (detail_url ''1886342'') (Some ''detail'') [(''city'', ''draper'')],
       page = listing_page\<rparr>) = Inr []"
    by (simp add: listing_page_def detail_page_def)
  note row = extract_detail_row[OF this]
  show ?thesis
    unfolding row by (simp add: listing_page_texts dict_get_def)
qed


text \<open>
  Claim C5, as amended. When the HTML of the page can be read, \<open>extract_detail\<close>
  appends one row and raises nothing. The row has the eleven columns of the header in
  order, each a string. A field whose extraction failed (no text for its selector, no
  match of its pattern) is the empty string. The \<^verbatim>\<open>mls\<close> of the row is what is read from
  the URL of the request, which for the detail URL of a non-empty identifier without
  \<^verbatim>\<open>/\<close> is that identifier, and so not empty.
\<close>

theorem record_complete:
  assumes "content pg = Inr html"
  shows "\<exists>row. extract_detail rx \<lparr>request = r, page = pg\<rparr> st =
            (None, st\<lparr>csv_rows := csv_rows st @ [row]\<rparr>) \<and>
      map fst row = CSV_HEADERS \<and> length row = 11 \<and>
      (no_text pg ''.prop-details-overview li span'' \<longrightarrow> dict_get row ''price'' [] = []) \<and>
      (no_text pg ''.prop-details-overview li:nth-of-type(2) span'' \<longrightarrow> dict_get row ''beds'' [] = []) \<and>
      (no_text pg ''.prop-details-overview li:nth-of-type(3) span'' \<longrightarrow> dict_get row ''baths'' [] = []) \<and>
      (no_text pg ''.prop-details-overview li:nth-of-type(4) span'' \<longrightarrow> dict_get row ''sqft'' [] = []) \<and>
      (no_text pg ''.prop___overview h2'' \<and> no_text pg ''#location-data''
         \<longrightarrow> dict_get row ''address'' [] = []) \<and>
      (no_text pg ''.agent-name, [class*='agent']'' \<longrightarrow> dict_get row ''agent'' [] = []) \<and>
      (rx Year_Built html = None \<longrightarrow> dict_get row ''year_built'' [] = []) \<and>
      (rx Lot html = None \<longrightarrow> dict_get row ''lot_size'' [] = []) \<and>
      (rx Garage html = None \<longrightarrow> dict_get row ''garage'' [] = []) \<and>
      (\<forall>mls. mls \<noteq> [] \<and> CHR ''/'' \<notin> set mls \<and> url r = detail_url mls
         \<longrightarrow> dict_get row ''mls'' [] = mls)"
proof -
  have "content (page \<lparr>request = r, page = pg\<rparr>) = Inr html" using assms by simp
  note row = extract_detail_row[OF this]
  show ?thesis
    unfolding row
    by (intro exI conjI, rule refl)
       (simp_all add: dict_get_def CSV_HEADERS_def safe_text_no_text url_mls_roundtrip
          strip_of_def strip_chars_def)
qed

theorem record_complete_witness:
  "\<exists>row. extract_detail no_match
      \<lparr>request = from_url (detail_url ''1886342'') (Some ''detail'') [(''city'', ''draper'')],
       page = detail_page [] []\<rparr> empty_state =
        (None, empty_state\<lparr>csv_rows := csv_rows empty_state @ [row]\<rparr>) \<and>
     map fst row = CSV_HEADERS \<and> dict_get row ''mls'' [] = ''1886342'' \<and>
     dict_get row ''price'' [] = [] \<and> dict_get row ''address'' [] = [] \<and>
     dict_get row ''beds'' [] = [] \<and> dict_get row ''baths'' [] = [] \<and>
     dict_get row ''sqft'' [] = [] \<and> dict_get row ''year_built'' [] = [] \<and>
     dict_get row ''lot_size'' [] = [] \<and> dict_get row ''garage'' [] = [] \<and>
     dict_get row ''agent'' [] = []"
proof -
  let ?r = "from_url (detail_url ''1886342'') (Some ''detail'') [(''city'', ''draper'')]"
  have c: "content (detail_page [] []) = Inr []"
    by (simp add: detail_page_def)
  have n: "no_text (detail_page [] []) selector" for selector
    by (simp add: no_text_def detail_page_def)
  have u: "''1886342'' \<noteq> [] \<and> CHR ''/'' \<notin> set ''1886342'' \<and> url ?r = detail_url ''1886342''"
    by (simp add: from_url_def)
  have "dict_get row ''mls'' [] = ''1886342''"
    if "\<forall>mls. mls \<noteq> [] \<and> CHR ''/'' \<notin> set mls \<and> url ?r = detail_url mls
         \<longrightarrow> dict_get row ''mls'' [] = mls" for row
    using that u by blast
  with record_complete[OF c, of no_match ?r empty_state] show ?thesis
    by (elim exE conjE, intro exI conjI) (simp_all add: n no_match_def)
qed

text \<open>
  An identifier that starts with \<^verbatim>\<open>/\<close> is queued like any other, and the row written for
  its request has an empty \<^verbatim>\<open>mls\<close>.
\<close>

theorem record_with_empty_mls:
  "request_queue (queue_listing ''draper'' empty_state (attr_element ''listno'' ''/7'')) =
     [from_url (detail_url ''/7'') (Some ''detail'') [(''city'', ''draper'')]] \<and>
   fst (extract_detail no_match
      \<lparr>request = from_url (detail_url ''/7'') (Some ''detail'') [(''city'', ''draper'')],
       page = detail_page [] []\<rparr> empty_state) = None \<and>
   dict_get (last (csv_rows (snd (extract_detail no_match
      \<lparr>request = from_url (detail_url ''/7'') (Some ''detail'') [(''city'', ''draper'')],
       page = detail_page [] []\<rparr> empty_state)))) ''mls'' [] = []"
proof -
  have "content (page \<lparr>request = from_url (detail_url ''/7'') (Some ''detail'') [(''city'', ''draper'')],
       page = detail_page [] []\<rparr>) = Inr []"
    by (simp add: detail_page_def)
  note row = extract_detail_row[OF this]
  show ?thesis
    unfolding row
    by (simp add: dict_get_def queue_listing_def attr_element_def empty_state_def add_requests_def
        from_url_def detail_url_def startswith_def)
qed

section \<open>Pagination\<close>












section \<open>The city\<close>

lemma backtrack_slug_None:
  "backtrack_slug rest n = None \<longleftrightarrow>
     (\<forall>k. 1 \<le> k \<and> k \<le> n \<longrightarrow> \<not> startswith (drop k rest) ''-homes'')"
proof (induction n)
  case 0
  then show ?case by simp
next
  case (Suc n)
  show ?case
  proof (cases "startswith (drop (Suc n) rest) ''-homes''")
    case True
    then show ?thesis by auto
  next
    case False
    then show ?thesis using Suc by (auto simp: le_Suc_eq)
  qed
qed

lemma backtrack_slug_Some:
  "backtrack_slug rest n = Some g \<Longrightarrow>
     \<exists>k. 1 \<le> k \<and> k \<le> n \<and> startswith (drop k rest) ''-homes'' \<and> g = take k rest"
  by (induction n) (auto split: if_splits simp: le_Suc_eq)

lemma startswithD: "startswith s p \<Longrightarrow> s = p @ drop (length p) s"
  unfolding startswith_def by (metis append_take_drop_id)

lemma take_takeWhile:
  assumes "k \<le> length (takeWhile P xs)"
  shows "take k xs = take k (takeWhile P xs)"
proof -
  have "take k (a @ b) = take k a" if "k \<le> length a" for a b :: "'a list"
    using that by simp
  from this[of "takeWhile P xs" "dropWhile P xs"] assms show ?thesis by simp
qed

lemma slug_of_run:
  assumes "1 \<le> k" and "k \<le> length (takeWhile (\<lambda>c. c \<noteq> x) rest)"
    and "startswith (drop k rest) h"
  shows "rest = take k rest @ h @ drop (length h) (drop k rest) \<and> take k rest \<noteq> [] \<and>
         x \<notin> set (take k rest)"
proof (intro conjI)
  have "drop k rest = h @ drop (length h) (drop k rest)"
    using assms(3) by (rule startswithD)
  then have "take k rest @ drop k rest = take k rest @ h @ drop (length h) (drop k rest)"
    by simp
  then show "rest = take k rest @ h @ drop (length h) (drop k rest)"
    by simp
  have "length (takeWhile (\<lambda>c. c \<noteq> x) rest) \<le> length rest"
    by (rule length_takeWhile_le)
  with assms(1,2) show "take k rest \<noteq> []" by auto
  have "set (take k (takeWhile (\<lambda>c. c \<noteq> x) rest)) \<subseteq> set (takeWhile (\<lambda>c. c \<noteq> x) rest)"
    by (rule set_take_subset)
  then have "x \<notin> set (take k (takeWhile (\<lambda>c. c \<noteq> x) rest))"
    by (auto dest: set_takeWhileD)
  then show "x \<notin> set (take k rest)"
    using take_takeWhile[OF assms(2)] by simp
qed

lemma match_city_at_sound:
  assumes "match_city_at s = Some g"
  shows "\<exists>post. s = ''utahrealestate.com/'' @ g @ ''-homes'' @ post \<and> g \<noteq> [] \<and> CHR ''/'' \<notin> set g"
proof -
  define L where "L = ''utahrealestate.com/''"
  define H where "H = ''-homes''"
  define rest where "rest = drop (length L) s"
  from assms have L: "startswith s L"
    and b: "backtrack_slug rest (length (takeWhile (\<lambda>c. c \<noteq> CHR ''/'') rest)) = Some g"
    unfolding L_def rest_def by (simp_all add: match_city_at_def Let_def split: if_splits)
  from backtrack_slug_Some[OF b] obtain k where k: "1 \<le> k"
    "k \<le> length (takeWhile (\<lambda>c. c \<noteq> CHR ''/'') rest)"
    and h: "startswith (drop k rest) H" and g: "g = take k rest"
    unfolding H_def by blast
  from slug_of_run[OF k h] have r: "rest = g @ H @ drop (length H) (drop k rest)"
    and g': "g \<noteq> []" "CHR ''/'' \<notin> set g"
    unfolding g by blast+
  have "s = L @ rest" unfolding rest_def using L by (rule startswithD)
  with r have "s = L @ g @ H @ drop (length H) (drop k rest)" by simp
  with g' show ?thesis unfolding L_def H_def by blast
qed

lemma match_city_at_complete:
  assumes "slug \<noteq> []" and "CHR ''/'' \<notin> set slug"
  shows "match_city_at (''utahrealestate.com/'' @ slug @ ''-homes'' @ post) \<noteq> None"
proof -
  let ?rest = "slug @ ''-homes'' @ post"
  let ?run = "takeWhile (\<lambda>c. c \<noteq> CHR ''/'') ?rest"
  have "?run = slug @ takeWhile (\<lambda>c. c \<noteq> CHR ''/'') (''-homes'' @ post)"
    using assms(2) by (intro takeWhile_append2) auto
  then have "length slug \<le> length ?run" by simp
  moreover have "1 \<le> length slug" using assms(1) by (cases slug) auto
  moreover have "startswith (drop (length slug) ?rest) ''-homes''"
    by (simp add: startswith_def)
  ultimately have "backtrack_slug ?rest (length ?run) \<noteq> None"
    unfolding backtrack_slug_None by blast
  then show ?thesis
    by (simp add: match_city_at_def startswith_def Let_def)
qed

lemma re_search_city_None:
  "re_search_city u = None \<longleftrightarrow> (\<forall>pre s. u = pre @ s \<longrightarrow> match_city_at s = None)"
proof (induction u)
  case Nil
  then show ?case by (simp add: match_city_at_def startswith_def)
next
  case (Cons c cs)
  show ?case
  proof
    assume n: "re_search_city (c # cs) = None"
    then have m: "match_city_at (c # cs) = None" and r: "re_search_city cs = None"
      by (auto split: option.splits)
    show "\<forall>pre s. c # cs = pre @ s \<longrightarrow> match_city_at s = None"
    proof (intro allI impI)
      fix pre s assume e: "c # cs = pre @ s"
      show "match_city_at s = None"
      proof (cases pre)
        case Nil
        with e m show ?thesis by simp
      next
        case (Cons a pre')
        with e have "cs = pre' @ s" by simp
        with r Cons.IH show ?thesis by blast
      qed
    qed
  next
    assume a: "\<forall>pre s. c # cs = pre @ s \<longrightarrow> match_city_at s = None"
    then have "match_city_at (c # cs) = None" by (metis append_Nil)
    moreover have "\<forall>pre s. cs = pre @ s \<longrightarrow> match_city_at s = None"
      using a by (metis append_Cons)
    then have "re_search_city cs = None" using Cons.IH by blast
    ultimately show "re_search_city (c # cs) = None" by simp
  qed
qed

lemma re_search_city_None_iff:
  "re_search_city u = None \<longleftrightarrow> \<not> matches_city_pattern u"
proof
  assume n: "re_search_city u = None"
  show "\<not> matches_city_pattern u"
  proof
    assume "matches_city_pattern u"
    then obtain pre slug post where u: "u = pre @ ''utahrealestate.com/'' @ slug @ ''-homes'' @ post"
      and s: "slug \<noteq> []" "CHR ''/'' \<notin> set slug"
      unfolding matches_city_pattern_def by blast
    from n u have "match_city_at (''utahrealestate.com/'' @ slug @ ''-homes'' @ post) = None"
      unfolding re_search_city_None by blast
    with match_city_at_complete[OF s] show False by blast
  qed
next
  assume m: "\<not> matches_city_pattern u"
  show "re_search_city u = None"
    unfolding re_search_city_None
  proof (intro allI impI)
    fix pre s assume u: "u = pre @ s"
    show "match_city_at s = None"
    proof (rule ccontr)
      assume "match_city_at s \<noteq> None"
      then obtain g where "match_city_at s = Some g" by auto
      from match_city_at_sound[OF this] u have "matches_city_pattern u"
        unfolding matches_city_pattern_def by blast
      with m show False ..
    qed
  qed
qed

lemma queue_listing_queue:
  "\<exists>rs. request_queue (queue_listing c st crd) = request_queue st @ rs \<and>
        (\<forall>r\<in>set rs. user_data r = [(''city'', c)])"
  by (auto simp: queue_listing_def add_requests_def from_url_def split: sum.splits option.splits)

lemma foldl_queue_listing_queue:
  "\<exists>rs. request_queue (foldl (queue_listing c) st cards) = request_queue st @ rs \<and>
        (\<forall>r\<in>set rs. user_data r = [(''city'', c)])"
proof (induction cards arbitrary: st)
  case Nil
  then show ?case by simp
next
  case (Cons crd cards)
  from queue_listing_queue[of c st crd] obtain rs1 where
    1: "request_queue (queue_listing c st crd) = request_queue st @ rs1"
       "\<forall>r\<in>set rs1. user_data r = [(''city'', c)]" by blast
  from Cons.IH[of "queue_listing c st crd"] obtain rs2 where
    2: "request_queue (foldl (queue_listing c) (queue_listing c st crd) cards) =
          request_queue (queue_listing c st crd) @ rs2"
       "\<forall>r\<in>set rs2. user_data r = [(''city'', c)]" by blast
  have "request_queue (foldl (queue_listing c) st (crd # cards)) = request_queue st @ (rs1 @ rs2)"
    using 1(1) 2(1) by simp
  moreover have "\<forall>r\<in>set (rs1 @ rs2). user_data r = [(''city'', c)]"
    using 1(2) 2(2) by auto
  ultimately show ?case by blast
qed

lemma paginate_queue:
  "\<exists>rs. request_queue (snd (paginate c pg st)) = request_queue st @ rs \<and>
        (\<forall>r\<in>set rs. user_data r = [(''city'', c)])"
  by (auto simp: paginate_def add_requests_def from_url_def Let_def split: sum.splits option.splits)

lemma extract_search_results_queue:
  "\<exists>rs. request_queue (snd (extract_search_results ctx st)) = request_queue st @ rs \<and>
        (\<forall>r\<in>set rs. user_data r = [(''city'', search_city (url (request ctx)))])"
proof -
  let ?c = "search_city (url (request ctx))"
  show ?thesis
  proof (cases "wait_for_selector (page ctx) ''.property___card''")
    case (Inl e)
    then show ?thesis by (simp add: extract_search_results_def Let_def)
  next
    case w: (Inr u)
    show ?thesis
    proof (cases "query_selector_all (page ctx) ''.property___card''")
      case (Inl e)
      with w show ?thesis by (simp add: extract_search_results_def Let_def)
    next
      case (Inr cards)
      from foldl_queue_listing_queue[of ?c st cards] obtain rs1 where
        1: "request_queue (foldl (queue_listing ?c) st cards) = request_queue st @ rs1"
           "\<forall>r\<in>set rs1. user_data r = [(''city'', ?c)]" by blast
      from paginate_queue[of ?c "page ctx" "foldl (queue_listing ?c) st cards"] obtain rs2 where
        2: "request_queue (snd (paginate ?c (page ctx) (foldl (queue_listing ?c) st cards))) =
              request_queue (foldl (queue_listing ?c) st cards) @ rs2"
           "\<forall>r\<in>set rs2. user_data r = [(''city'', ?c)]" by blast
      have "request_queue (snd (extract_search_results ctx st)) = request_queue st @ (rs1 @ rs2)"
        using w Inr 1(1) 2(1) by (simp add: extract_search_results_def Let_def)
      moreover have "\<forall>r\<in>set (rs1 @ rs2). user_data r = [(''city'', ?c)]"
        using 1(2) 2(2) by auto
      ultimately show ?thesis by blast
    qed
  qed
qed

text \<open>
  Claim C10. On a search page whose URL does not match the pattern, the city is the
  string \<^verbatim>\<open>unknown\<close>, and so every request the handler adds carries that city. On a
  detail page whose request has no \<^verbatim>\<open>city\<close> in its user data, the city of the row is
  \<^verbatim>\<open>unknown\<close>.
\<close>

theorem city_defaults_to_unknown:
  "(\<not> matches_city_pattern (url (request ctx)) \<longrightarrow>
      search_city (url (request ctx)) = ''unknown'' \<and>
      (\<exists>rs. request_queue (snd (extract_search_results ctx st)) = request_queue st @ rs \<and>
            (\<forall>r\<in>set rs. user_data r = [(''city'', ''unknown'')]))) \<and>
   (map_of (user_data (request ctx)) ''city'' = None \<and> content (page ctx) = Inr html \<longrightarrow>
      (\<exists>row. extract_detail rx ctx st = (None, st\<lparr>csv_rows := csv_rows st @ [row]\<rparr>) \<and>
             dict_get row ''city'' [] = ''unknown''))"
proof (intro conjI impI)
  assume "\<not> matches_city_pattern (url (request ctx))"
  then show u: "search_city (url (request ctx)) = ''unknown''"
    by (simp add: search_city_def flip: re_search_city_None_iff)
  show "\<exists>rs. request_queue (snd (extract_search_results ctx st)) = request_queue st @ rs \<and>
            (\<forall>r\<in>set rs. user_data r = [(''city'', ''unknown'')])"
    using extract_search_results_queue[of ctx st] unfolding u .
next
  assume a: "map_of (user_data (request ctx)) ''city'' = None \<and> content (page ctx) = Inr html"
  then have "content (page ctx) = Inr html" ..
  note row = extract_detail_row[OF this]
  show "\<exists>row. extract_detail rx ctx st = (None, st\<lparr>csv_rows := csv_rows st @ [row]\<rparr>) \<and>
             dict_get row ''city'' [] = ''unknown''"
    unfolding row
    by (intro exI conjI, rule refl) (simp add: dict_get_def a)
qed

theorem city_defaults_to_unknown_witness:
  "search_city ''https://www.utahrealestate.com/search'' = ''unknown'' \<and>
   request_queue (snd (extract_search_results
      \<lparr>request = from_url ''https://www.utahrealestate.com/search'' None [],
       page = search_page [''1886342''] None\<rparr> empty_state)) =
     [from_url (detail_url ''1886342'') (Some ''detail'') [(''city'', ''unknown'')]] \<and>
   dict_get (last (csv_rows (snd (extract_detail no_match
      \<lparr>request = from_url (detail_url ''1886342'') (Some ''detail'') [],
       page = detail_page [] []\<rparr> empty_state)))) ''city'' [] = ''unknown''"
proof -
  let ?s = "\<lparr>request = from_url ''https://www.utahrealestate.com/search'' None [],
       page = search_page [''1886342''] None\<rparr>"
  let ?d = "\<lparr>request = from_url (detail_url ''1886342'') (Some ''detail'') [],
       page = detail_page [] []\<rparr>"
  have "re_search_city ''https://www.utahrealestate.com/search'' = None"
    by code_simp
  then have "\<not> matches_city_pattern ''https://www.utahrealestate.com/search''"
    unfolding re_search_city_None_iff .
  then have n: "\<not> matches_city_pattern (url (request ?s))"
    by (simp add: from_url_def)
  have d: "map_of (user_data (request ?d)) ''city'' = None \<and> content (page ?d) = Inr []"
    by (simp add: from_url_def detail_page_def)
  have q: "request_queue (snd (extract_search_results ?s empty_state)) =
     [from_url (detail_url ''1886342'') (Some ''detail'')
        [(''city'', search_city ''https://www.utahrealestate.com/search'')]]"
    by (simp add: extract_search_results_def paginate_def search_page_def queue_listing_def
        attr_element_def add_requests_def empty_state_def from_url_def Let_def)
  from city_defaults_to_unknown[of ?s empty_state "[]" no_match] n q
  have 1: "search_city ''https://www.utahrealestate.com/search'' = ''unknown''"
    by (simp add: from_url_def)
  from city_defaults_to_unknown[of ?d empty_state "[]" no_match] d
  have 2: "dict_get (last (csv_rows (snd (extract_detail no_match ?d empty_state)))) ''city'' []
      = ''unknown''"
    by auto
  from 1 2 q show ?thesis by simp
qed


section \<open>Claiming an identifier once\<close>

lemma start_requests_search: "\<forall>r\<in>set start_requests. \<not> routed_to_detail r"
  by code_simp

lemma run_Nil: "run rx [] = (empty_state, [])"
  by (simp add: run_def)

lemma run_snoc: "run rx (evs @ [e]) = step rx (run rx evs) e"
  by (simp add: run_def)

lemma queue_listing_cases:
  "queue_listing c st crd =
     (case card_mls (Card c crd) of
        None \<Rightarrow> st
      | Some mls \<Rightarrow>
          if mls \<in> visited_mls st then st
          else st\<lparr>visited_mls := insert mls (visited_mls st),
                  request_queue := request_queue st @
                    [from_url (detail_url mls) (Some ''detail'') [(''city'', c)]]\<rparr>)"
  by (auto simp: queue_listing_def add_requests_def split: sum.splits option.splits)

lemma paginate_cases:
  "snd (paginate c pg st) = st \<or>
   (\<exists>u. snd (paginate c pg st) = st\<lparr>request_queue := request_queue st @ [from_url u None [(''city'', c)]]\<rparr> \<and>
        request_queue (snd (paginate c pg empty_state)) = [from_url u None [(''city'', c)]])"
  by (auto simp: paginate_def add_requests_def Let_def empty_state_def split: sum.splits option.splits)

lemma extract_detail_cases:
  "extract_detail rx ctx st = (Some e, st') \<Longrightarrow> st' = st"
  "extract_detail rx ctx st = (None, st') \<Longrightarrow>
     \<exists>row. st' = st\<lparr>csv_rows := csv_rows st @ [row]\<rparr> \<and> row_mls row = request_mls (request ctx)"
proof -
  show "extract_detail rx ctx st = (Some e, st') \<Longrightarrow> st' = st"
    by (cases "content (page ctx)") (auto simp: extract_detail_row extract_detail_raise)
  assume a: "extract_detail rx ctx st = (None, st')"
  show "\<exists>row. st' = st\<lparr>csv_rows := csv_rows st @ [row]\<rparr> \<and> row_mls row = request_mls (request ctx)"
  proof (cases "content (page ctx)")
    case (Inl e)
    with a show ?thesis by (simp add: extract_detail_raise)
  next
    case (Inr html)
    note row = extract_detail_row[OF this, of rx st]
    from a[unfolded row] have "st' = st\<lparr>csv_rows := csv_rows st @
      [[(''mls'', hd (split (last (split (url (request ctx)) ''/listing/'')) ''/'')),
        (''price'', safe_text (page ctx) ''.prop-details-overview li span''),
        (''address'', strip_of '' ,'' (safe_text (page ctx) ''.prop___overview h2'' @ '', '' @
                                       safe_text (page ctx) ''#location-data'')),
        (''beds'', replace (safe_text (page ctx) ''.prop-details-overview li:nth-of-type(2) span'') '','' []),
        (''baths'', replace (safe_text (page ctx) ''.prop-details-overview li:nth-of-type(3) span'') '','' []),
        (''sqft'', replace (safe_text (page ctx) ''.prop-details-overview li:nth-of-type(4) span'') '','' []),
        (''year_built'', case rx Year_Built html of Some g \<Rightarrow> g | None \<Rightarrow> []),
        (''lot_size'', case rx Lot html of Some g \<Rightarrow> g | None \<Rightarrow> []),
        (''garage'', case rx Garage html of Some g \<Rightarrow> g | None \<Rightarrow> []),
        (''agent'', if safe_text (page ctx) ''.agent-name, [class*='agent']'' \<noteq> []
                    then strip (collapse_ws (safe_text (page ctx) ''.agent-name, [class*='agent']''))
                    else []),
        (''city'', dict_get (user_data (request ctx)) ''city'' ''unknown'')]]\<rparr>"
      by simp
    then show ?thesis
      by (intro exI conjI, assumption) (simp add: row_mls_def request_mls_def dict_get_def)
  qed
qed

lemma length_start_requests: "length start_requests = 13"
  by (simp add: start_requests_def start_urls_def cities_def)

lemma step_Detail_cases:
  "step rx s (Detail n pg) = s \<or>
   (\<exists>row. step rx s (Detail n pg) = ((fst s)\<lparr>csv_rows := csv_rows (fst s) @ [row]\<rparr>, snd s @ [n]) \<and>
      n < length (start_requests @ request_queue (fst s)) \<and> n \<notin> set (snd s) \<and>
      routed_to_detail ((start_requests @ request_queue (fst s)) ! n) \<and>
      row_mls row = request_mls ((start_requests @ request_queue (fst s)) ! n))"
proof -
  obtain st completed where s: "s = (st, completed)" by (cases s)
  let ?q = "start_requests @ request_queue st"
  let ?ctx = "\<lparr>request = ?q ! n, page = pg\<rparr>"
  show ?thesis
  proof (cases "n < length ?q \<and> n \<notin> set completed \<and> routed_to_detail (?q ! n)")
    case False
    then show ?thesis by (auto simp: s Let_def)
  next
    case True
    obtain r st' where e: "extract_detail rx ?ctx st = (r, st')" by (cases "extract_detail rx ?ctx st")
    show ?thesis
    proof (cases r)
      case None
      from extract_detail_cases(2)[OF e[unfolded None]] obtain row where
        "st' = st\<lparr>csv_rows := csv_rows st @ [row]\<rparr>" "row_mls row = request_mls (?q ! n)"
        by auto
      with True e None show ?thesis by (auto simp: s Let_def)
    next
      case (Some err)
      from extract_detail_cases(1)[OF e[unfolded Some]] have "st' = st" .
      with True e Some show ?thesis by (auto simp: s Let_def)
    qed
  qed
qed

lemma step_visited:
  "visited_mls (fst (step rx s e)) =
     visited_mls (fst s) \<union> (case card_mls e of None \<Rightarrow> {} | Some m \<Rightarrow> {m})"
proof (cases e)
  case (Card c crd)
  then show ?thesis
    by (cases s) (auto simp: queue_listing_cases split: option.splits)
next
  case (Next c pg)
  then show ?thesis
    using paginate_cases[of c pg "fst s"] by (cases s) auto
next
  case (Detail n pg)
  then show ?thesis
    using step_Detail_cases[of rx s n pg] by auto
qed

lemma seen_mls_snoc:
  "seen_mls (evs @ [e]) = seen_mls evs \<union> (case card_mls e of None \<Rightarrow> {} | Some m \<Rightarrow> {m})"
  by (auto simp: seen_mls_def split: option.splits)

lemma run_visited: "visited_mls (fst (run rx evs)) = seen_mls evs"
proof (induction evs rule: rev_induct)
  case Nil
  then show ?case by (simp add: run_Nil empty_state_def seen_mls_def)
next
  case (snoc e evs)
  then show ?case by (simp add: run_snoc step_visited seen_mls_snoc)
qed

lemma detail_url_inject: "detail_url a = detail_url b \<longleftrightarrow> a = b"
  by (simp add: detail_url_def)

lemma step_detail_tasks:
  "length (detail_tasks (fst (step rx s e)) mls) =
     length (detail_tasks (fst s) mls) +
     (if card_mls e = Some mls \<and> mls \<notin> visited_mls (fst s) then 1 else 0)"
proof (cases e)
  case (Card c crd)
  then show ?thesis
    by (cases s)
       (auto simp: queue_listing_cases detail_tasks_def from_url_def detail_url_inject
             split: option.splits)
next
  case (Next c pg)
  then show ?thesis
    using paginate_cases[of c pg "fst s"]
    by (cases s) (auto simp: detail_tasks_def from_url_def)
next
  case (Detail n pg)
  then show ?thesis
    using step_Detail_cases[of rx s n pg] by (auto simp: detail_tasks_def)
qed

lemma run_detail_tasks:
  "length (detail_tasks (fst (run rx evs)) mls) = (if mls \<in> seen_mls evs then 1 else 0)"
proof (induction evs rule: rev_induct)
  case Nil
  then show ?case by (simp add: run_Nil detail_tasks_def empty_state_def seen_mls_def)
next
  case (snoc e evs)
  then show ?case
    by (auto simp: run_snoc step_detail_tasks run_visited seen_mls_snoc split: option.splits)
qed

lemma rediscovery_is_noop:
  "card_mls (Card c crd) = Some mls \<Longrightarrow> mls \<in> seen_mls evs \<Longrightarrow>
     run rx (evs @ [Card c crd]) = run rx evs"
  using run_visited[of rx evs]
  by (cases "run rx evs") (simp add: run_snoc queue_listing_cases)

lemma sink_inv_init: "sink_inv (empty_state, [])"
  using start_requests_search
  by (auto simp: sink_inv_def empty_state_def)

lemma sink_inv_snoc:
  assumes "sink_inv (st, cs)" and "visited_mls st \<subseteq> V"
    and "routed_to_detail x \<longrightarrow> request_mls x \<in> V \<and> request_mls x \<notin> visited_mls st"
  shows "sink_inv (st\<lparr>visited_mls := V, request_queue := request_queue st @ [x]\<rparr>, cs)"
proof -
  define q where "q = start_requests @ request_queue st"
  have q': "start_requests @ request_queue st @ [x] = q @ [x]" by (simp add: q_def)
  have lq: "length start_requests + length (request_queue st) = length q" by (simp add: q_def)
  from assms(1) have
    A: "\<And>i. i < length q \<Longrightarrow> routed_to_detail (q ! i) \<Longrightarrow> request_mls (q ! i) \<in> visited_mls st" and
    B: "\<And>i j. i < length q \<Longrightarrow> j < length q \<Longrightarrow> routed_to_detail (q ! i) \<Longrightarrow>
          routed_to_detail (q ! j) \<Longrightarrow> request_mls (q ! i) = request_mls (q ! j) \<Longrightarrow> i = j" and
    C: "distinct cs" "\<And>n. n \<in> set cs \<Longrightarrow> n < length q \<and> routed_to_detail (q ! n)"
       "map row_mls (csv_rows st) = map (\<lambda>n. request_mls (q ! n)) cs"
    unfolding sink_inv_def q_def by (simp_all add: Let_def)
  have A': "request_mls ((q @ [x]) ! i) \<in> V"
    if "i < length (q @ [x])" "routed_to_detail ((q @ [x]) ! i)" for i
    using that A[of i] assms(2,3) by (cases "i < length q") (auto simp: nth_append less_Suc_eq)
  have B': "i = j"
    if "i < length (q @ [x])" "j < length (q @ [x])" "routed_to_detail ((q @ [x]) ! i)"
      "routed_to_detail ((q @ [x]) ! j)" "request_mls ((q @ [x]) ! i) = request_mls ((q @ [x]) ! j)"
    for i j
  proof (cases "i < length q"; cases "j < length q")
    assume "i < length q" "j < length q"
    with that B[of i j] show ?thesis by (simp add: nth_append)
  next
    assume ij: "i < length q" "\<not> j < length q"
    with that have "j = length q" by simp
    with that ij A[of i] assms(3) show ?thesis by (auto simp: nth_append)
  next
    assume ij: "\<not> i < length q" "j < length q"
    with that have "i = length q" by simp
    with that ij A[of j] assms(3) show ?thesis by (auto simp: nth_append)
  next
    assume "\<not> i < length q" "\<not> j < length q"
    with that show ?thesis by simp
  qed
  have C': "n < length (q @ [x]) \<and> routed_to_detail ((q @ [x]) ! n)" if "n \<in> set cs" for n
    using C(2)[OF that] by (simp add: nth_append)
  have C'': "map row_mls (csv_rows st) = map (\<lambda>n. request_mls ((q @ [x]) ! n)) cs"
    unfolding C(3) using C(2) by (intro map_cong refl) (simp add: nth_append)
  show ?thesis
    unfolding sink_inv_def
    using A' B' C(1) C' C'' by (simp add: Let_def q' lq)
qed

lemma sink_inv_row:
  assumes "sink_inv (st, cs)" and "n < length (start_requests @ request_queue st)"
    and "n \<notin> set cs" and "routed_to_detail ((start_requests @ request_queue st) ! n)"
    and "row_mls row = request_mls ((start_requests @ request_queue st) ! n)"
  shows "sink_inv (st\<lparr>csv_rows := csv_rows st @ [row]\<rparr>, cs @ [n])"
  using assms unfolding sink_inv_def by (auto simp: Let_def)

lemma step_sink_inv:
  assumes "sink_inv s" and "regular e"
  shows "sink_inv (step rx s e)"
proof -
  obtain st cs where s: "s = (st, cs)" by (cases s)
  show ?thesis
  proof (cases e)
    case (Card c crd)
    show ?thesis
    proof (cases "card_mls (Card c crd)")
      case None
      with assms(1) show ?thesis by (simp add: s Card queue_listing_cases)
    next
      case (Some mls)
      with assms(2) Card have m: "CHR ''/'' \<notin> set mls" by simp
      show ?thesis
      proof (cases "mls \<in> visited_mls st")
        case True
        with assms(1) Some show ?thesis by (simp add: s Card queue_listing_cases)
      next
        case False
        let ?x = "from_url (detail_url mls) (Some ''detail'') [(''city'', c)]"
        have "request_mls ?x = mls"
          using url_mls_roundtrip[OF m] by (simp add: request_mls_def from_url_def)
        with False have "routed_to_detail ?x \<longrightarrow>
            request_mls ?x \<in> insert mls (visited_mls st) \<and> request_mls ?x \<notin> visited_mls st"
          by simp
        from sink_inv_snoc[OF assms(1)[unfolded s] _ this]
        show ?thesis using False Some by (auto simp: s Card queue_listing_cases)
      qed
    qed
  next
    case (Next c pg)
    from paginate_cases[of c pg st] show ?thesis
    proof
      assume "snd (paginate c pg st) = st"
      with assms(1) show ?thesis by (simp add: s Next)
    next
      assume "\<exists>u. snd (paginate c pg st) =
          st\<lparr>request_queue := request_queue st @ [from_url u None [(''city'', c)]]\<rparr> \<and>
          request_queue (snd (paginate c pg empty_state)) = [from_url u None [(''city'', c)]]"
      then obtain u where u: "snd (paginate c pg st) =
          st\<lparr>request_queue := request_queue st @ [from_url u None [(''city'', c)]]\<rparr>"
        "request_queue (snd (paginate c pg empty_state)) = [from_url u None [(''city'', c)]]"
        by blast
      from assms(2) u(2) have "\<not> routed_to_detail (from_url u None [(''city'', c)])"
        by (simp add: Next routed_to_detail_def from_url_def)
      then have "routed_to_detail (from_url u None [(''city'', c)]) \<longrightarrow>
          request_mls (from_url u None [(''city'', c)]) \<in> visited_mls st \<and>
          request_mls (from_url u None [(''city'', c)]) \<notin> visited_mls st"
        by simp
      from sink_inv_snoc[OF assms(1)[unfolded s] subset_refl this]
      show ?thesis by (simp add: s Next u(1))
    qed
  next
    case (Detail n pg)
    from step_Detail_cases[of rx s n pg] show ?thesis
    proof
      assume "step rx s (Detail n pg) = s"
      with assms(1) show ?thesis by (simp add: Detail)
    next
      assume "\<exists>row. step rx s (Detail n pg) =
          ((fst s)\<lparr>csv_rows := csv_rows (fst s) @ [row]\<rparr>, snd s @ [n]) \<and>
          n < length (start_requests @ request_queue (fst s)) \<and> n \<notin> set (snd s) \<and>
          routed_to_detail ((start_requests @ request_queue (fst s)) ! n) \<and>
          row_mls row = request_mls ((start_requests @ request_queue (fst s)) ! n)"
      then obtain row where r: "step rx s (Detail n pg) =
          (st\<lparr>csv_rows := csv_rows st @ [row]\<rparr>, cs @ [n])"
          "n < length (start_requests @ request_queue st)" "n \<notin> set cs"
          "routed_to_detail ((start_requests @ request_queue st) ! n)"
          "row_mls row = request_mls ((start_requests @ request_queue st) ! n)"
        unfolding s by auto
      from sink_inv_row[OF assms(1)[unfolded s] r(2-5)] show ?thesis
        by (simp add: Detail r(1))
    qed
  qed
qed

lemma run_sink_inv: "list_all regular evs \<Longrightarrow> sink_inv (run rx evs)"
proof (induction evs rule: rev_induct)
  case Nil
  then show ?case by (simp add: run_Nil sink_inv_init)
next
  case (snoc e evs)
  then show ?case by (simp add: run_snoc step_sink_inv)
qed

lemma sink_inv_distinct:
  assumes "sink_inv s"
  shows "distinct (map row_mls (csv_rows (fst s)))"
proof -
  define q where "q = start_requests @ request_queue (fst s)"
  from assms have
    B: "\<And>i j. i < length q \<Longrightarrow> j < length q \<Longrightarrow> routed_to_detail (q ! i) \<Longrightarrow>
          routed_to_detail (q ! j) \<Longrightarrow> request_mls (q ! i) = request_mls (q ! j) \<Longrightarrow> i = j" and
    C: "distinct (snd s)" "\<And>n. n \<in> set (snd s) \<Longrightarrow> n < length q \<and> routed_to_detail (q ! n)"
       "map row_mls (csv_rows (fst s)) = map (\<lambda>n. request_mls (q ! n)) (snd s)"
    unfolding sink_inv_def q_def by (simp_all add: Let_def)
  have "inj_on (\<lambda>n. request_mls (q ! n)) (set (snd s))"
    using B C(2) by (intro inj_onI) blast
  with C(1) show ?thesis unfolding C(3) by (simp add: distinct_map)
qed

lemma foldl_step_cards:
  "foldl (step rx) (st, cs) (map (Card c) cards) = (foldl (queue_listing c) st cards, cs)"
  by (induction cards arbitrary: st) simp_all

lemma extract_search_results_as_events:
  assumes "wait_for_selector (page ctx) ''.property___card'' = Inr u"
    and "query_selector_all (page ctx) ''.property___card'' = Inr cards"
  shows "(snd (extract_search_results ctx st), cs) =
     foldl (step rx) (st, cs)
       (map (Card (search_city (url (request ctx)))) cards @
        [Next (search_city (url (request ctx))) (page ctx)])"
  using assms by (simp add: extract_search_results_def Let_def foldl_step_cards)

lemma router_handler_routes:
  assumes "check_memory rss = Inr m"
    and "wait_for_load_state (page ctx) ''domcontentloaded'' = Inr u"
  shows "router_handler rx rss ctx st =
     (if routed_to_detail (request ctx) then extract_detail rx ctx st
      else extract_search_results ctx st)"
  using assms by (simp add: router_handler_def routed_to_detail_def)

lemma example_run_result:
  "run no_match example_run =
    (\<lparr>visited_mls = {''1886342''},
      request_queue =
        [from_url (detail_url ''1886342'') (Some ''detail'') [(''city'', ''draper'')],
         from_url ''https://www.utahrealestate.com/draper-homes?page=2'' None [(''city'', ''draper'')]],
      csv_rows =
        [[(''mls'', ''1886342''), (''price'', []), (''address'', []), (''beds'', []),
          (''baths'', []), (''sqft'', []), (''year_built'', []), (''lot_size'', []),
          (''garage'', []), (''agent'', []), (''city'', ''draper'')]]\<rparr>, [13])"
  by code_simp

lemma example_run_regular: "list_all regular example_run"
  by code_simp

lemma slash_run_rows: "map row_mls (csv_rows (fst (run no_match slash_run))) = [''1'', ''1'']"
  by code_simp

lemma link_run_rows: "map row_mls (csv_rows (fst (run no_match link_run))) = [''1'', ''1'']"
  by code_simp

lemma example_run_seen: "seen_mls example_run = {''1886342''}"
  by (auto simp: seen_mls_def example_run_def attr_element_def)

text \<open>
  Claim C1, as amended. In every run: \<^verbatim>\<open>visited_mls\<close> holds exactly the identifiers seen on
  cards; for each of them exactly one detail request has been queued, and none for any
  other identifier; a step for a card whose identifier was seen before changes nothing.
  If moreover the run is regular (no identifier has a \<^verbatim>\<open>/\<close>, no next-page link leads to
  a URL with \<^verbatim>\<open>/listing/\<close>), then no two rows written have the same \<^verbatim>\<open>mls\<close>.
\<close>

theorem claim_exactly_once:
  "visited_mls (fst (run rx evs)) = seen_mls evs \<and>
   (\<forall>mls. length (detail_tasks (fst (run rx evs)) mls) = (if mls \<in> seen_mls evs then 1 else 0)) \<and>
   (\<forall>c crd mls. card_mls (Card c crd) = Some mls \<and> mls \<in> seen_mls evs \<longrightarrow>
      run rx (evs @ [Card c crd]) = run rx evs) \<and>
   (list_all regular evs \<longrightarrow> distinct (map row_mls (csv_rows (fst (run rx evs)))))"
proof (intro conjI allI impI)
  show "visited_mls (fst (run rx evs)) = seen_mls evs"
    by (rule run_visited)
  show "length (detail_tasks (fst (run rx evs)) mls) = (if mls \<in> seen_mls evs then 1 else 0)" for mls
    by (rule run_detail_tasks)
  show "run rx (evs @ [Card c crd]) = run rx evs"
    if "card_mls (Card c crd) = Some mls \<and> mls \<in> seen_mls evs" for c crd mls
    using that rediscovery_is_noop by blast
  show "distinct (map row_mls (csv_rows (fst (run rx evs))))" if "list_all regular evs"
    using that by (intro sink_inv_distinct run_sink_inv)
qed

theorem claim_exactly_once_witness:
  "list_all regular example_run \<and>
   visited_mls (fst (run no_match example_run)) = {''1886342''} \<and>
   length (detail_tasks (fst (run no_match example_run)) ''1886342'') = 1 \<and>
   length (detail_tasks (fst (run no_match example_run)) ''1886343'') = 0 \<and>
   run no_match (example_run @ [Card ''murray'' (attr_element ''listno'' ''1886342'')]) =
     run no_match example_run \<and>
   distinct (map row_mls (csv_rows (fst (run no_match example_run))))"
proof -
  have "card_mls (Card ''murray'' (attr_element ''listno'' ''1886342'')) = Some ''1886342''"
    by (simp add: attr_element_def)
  with claim_exactly_once[of no_match example_run] example_run_regular
  show ?thesis
    by (simp add: example_run_seen)
qed

text \<open>
  Without regularity the rows can repeat an \<^verbatim>\<open>mls\<close>: the identifiers \<^verbatim>\<open>1\<close> and \<^verbatim>\<open>1/x\<close> are
  claimed separately and both rows carry \<^verbatim>\<open>1\<close>; so do the rows for the identifier \<^verbatim>\<open>1\<close>
  and for a next-page link to \<^verbatim>\<open>/listing/1/photos\<close>.
\<close>

theorem sink_repeats_mls:
  "map row_mls (csv_rows (fst (run no_match slash_run))) = [''1'', ''1''] \<and>
   \<not> distinct (map row_mls (csv_rows (fst (run no_match slash_run)))) \<and>
   map row_mls (csv_rows (fst (run no_match link_run))) = [''1'', ''1''] \<and>
   \<not> distinct (map row_mls (csv_rows (fst (run no_match link_run))))"
  by (simp add: slash_run_rows link_run_rows)


section \<open>The memory check\<close>

text \<open>
  \<open>check_memory\<close> raises exactly when the resident size is more than nine tenths of
  seven gibibytes, which for a whole number of bytes is from 6764573492 bytes on. Python
  computes with floating-point numbers: the quotient by \<^verbatim>\<open>1024 ** 3\<close> is exact, and the
  product \<^verbatim>\<open>7.0 * 0.9\<close> is the floating-point number just below 6.3, which lies above
  6764573491 bytes as well, so the test gives what it gives on the reals. When it raises,
  the exception leaves \<open>router_handler\<close> before the page is touched, and the state is
  as it was.
\<close>

lemma check_memory_raises_iff:
  "check_memory rss = Inl MemoryError \<longleftrightarrow> real rss / 1024 ^ 3 / MAX_MEMORY_GB > 9 / 10"
  by (simp add: check_memory_def MAX_MEMORY_GB_def Let_def field_simps)

lemma check_memory_returns:
  "\<not> real rss / 1024 ^ 3 / MAX_MEMORY_GB > 9 / 10 \<Longrightarrow> check_memory rss = Inr (real rss / 1024 ^ 3)"
  by (simp add: check_memory_def MAX_MEMORY_GB_def Let_def field_simps)

lemma check_memory_bytes:
  "check_memory rss = Inl MemoryError \<longleftrightarrow> 6764573492 \<le> rss"
proof -
  have "real rss / 1024 ^ 3 > 7 * (9 / 10) \<longleftrightarrow> real rss * 10 > 63 * 1024 ^ 3"
    by (simp add: field_simps)
  also have "\<dots> \<longleftrightarrow> real (rss * 10) > real (63 * 1024 ^ 3)"
    by simp
  also have "\<dots> \<longleftrightarrow> rss * 10 > 63 * 1024 ^ 3"
    by (rule of_nat_less_iff)
  also have "\<dots> \<longleftrightarrow> 6764573492 \<le> rss"
    by simp arith
  finally show ?thesis
    by (simp add: check_memory_def MAX_MEMORY_GB_def Let_def)
qed

lemma float_threshold_bytes:
  "real rss / 1024 ^ 3 > 7093169413108531 / 2 ^ 50 \<longleftrightarrow> 6764573492 \<le> rss"
proof -
  have "real rss / 1024 ^ 3 > 7093169413108531 / 2 ^ 50 \<longleftrightarrow>
        real rss * 2 ^ 20 > 7093169413108531"
    by (simp add: field_simps)
  also have "\<dots> \<longleftrightarrow> real (rss * 2 ^ 20) > real 7093169413108531"
    by simp
  also have "\<dots> \<longleftrightarrow> rss * 2 ^ 20 > 7093169413108531"
    by (rule of_nat_less_iff)
  also have "\<dots> \<longleftrightarrow> 6764573492 \<le> rss"
    by simp arith
  finally show ?thesis .
qed

lemma router_handler_memory:
  "check_memory rss = Inl e \<Longrightarrow> router_handler rx rss ctx st = (Some e, st)"
  by (simp add: router_handler_def)

end
